theory Spec2Isabelle
  imports Main "HOL-Library.AList"
begin

section \<open>Conway's Game of Life on a clipped terminal grid\<close>

text \<open>
  A shallow embedding of \<^verbatim>\<open>src/bin/conway.py\<close>. The program is Python 2: integers are
  unbounded (\<^typ>\<open>int\<close>), \<^verbatim>\<open>/\<close> on integers is floor division, and a function
  that falls off its end returns \<^verbatim>\<open>None\<close>.
\<close>

subsection \<open>Boards\<close>

text \<open>
  A board is the dictionary \<^verbatim>\<open>{(x, y): state}\<close>. It is represented by an association
  list read through \<^const>\<open>map_of\<close>: the keys are the first components, \<^verbatim>\<open>p in board\<close> is
  membership among them, \<^verbatim>\<open>len(board)\<close> counts the distinct keys and
  \<^verbatim>\<open>board[k] = v\<close> is \<^const>\<open>AList.update\<close>. The dictionary's iteration order is not
  fixed by the language; the list fixes one, and the results below are about the
  dictionary denoted, not about that order.
\<close>

type_synonym cell = "int \<times> int"
type_synonym board = "(cell \<times> int) list"

definition keys :: "board \<Rightarrow> cell list" where
  "keys b = remdups (map fst b)"

definition len :: "board \<Rightarrow> int" where
  "len b = int (length (keys b))"

text \<open>\<^verbatim>\<open>neigh in board\<close>, where \<^verbatim>\<open>neigh\<close> may be \<^verbatim>\<open>None\<close> (never a key).\<close>

fun in_board :: "cell option \<Rightarrow> board \<Rightarrow> bool" where
  "in_board None b = False"
| "in_board (Some p) b = (p \<in> set (keys b))"

subsection \<open>The clipping policy \<^verbatim>\<open>die\<close>\<close>

text \<open>
  \<^verbatim>\<open>die\<close> is a closure over the terminal's \<^verbatim>\<open>width\<close> and \<^verbatim>\<open>height\<close>; they are
  parameters here. Out of bounds it returns \<^verbatim>\<open>None\<close>.
\<close>

fun die :: "int \<Rightarrow> int \<Rightarrow> cell \<Rightarrow> cell option" where
  "die width height (x, y) =
     (if 0 \<le> x \<and> x < width \<and> 0 \<le> y \<and> y < height then Some (x, y) else None)"

subsection \<open>\<^verbatim>\<open>neighbors\<close> and \<^verbatim>\<open>next_board\<close>\<close>

fun neighbors :: "cell \<Rightarrow> cell list" where
  "neighbors (x, y) =
     [(x + 1, y), (x - 1, y), (x, y + 1), (x, y - 1),
      (x + 1, y + 1), (x + 1, y - 1), (x - 1, y + 1), (x - 1, y - 1)]"

text \<open>
  \<^verbatim>\<open>set(board.iterkeys()) | set(chain(*map(neighbors, board)))\<close>: the live cells and all
  their neighbours, unclipped, each once.
\<close>

definition points_to_recalc :: "board \<Rightarrow> cell list" where
  "points_to_recalc b = remdups (keys b @ concat (map neighbors (keys b)))"

text \<open>
  \<^verbatim>\<open>sum((neigh in board) for neigh in (wrap(n) for n in neighbors(point) if n))\<close>.
  The filter \<^verbatim>\<open>if n\<close> tests a pair, which is always true in Python, so it keeps every
  neighbour.
\<close>

definition live_count :: "board \<Rightarrow> (cell \<Rightarrow> cell option) \<Rightarrow> cell \<Rightarrow> nat" where
  "live_count b wrap point =
     sum_list (map (\<lambda>neigh. of_bool (in_board neigh b)) (map wrap (neighbors point)))"

text \<open>Lines 137 to 142: the state chosen for a point, \<^verbatim>\<open>None\<close> for no state.\<close>

definition next_state :: "nat \<Rightarrow> bool \<Rightarrow> int option" where
  "next_state count live =
     (if count = 3 then Some (if live then 0 else 1)
      else if count = 2 \<and> live then Some 2
      else None)"

text \<open>
  The body of the loop over \<^verbatim>\<open>points_to_recalc\<close>. A wrapped point is a pair, hence true
  in \<^verbatim>\<open>if wrapped\<close>; only \<^verbatim>\<open>None\<close> is skipped.
\<close>

definition recalc :: "board \<Rightarrow> (cell \<Rightarrow> cell option) \<Rightarrow> cell \<Rightarrow> board \<Rightarrow> board" where
  "recalc b wrap point new_board =
     (case next_state (live_count b wrap point) (in_board (Some point) b) of
        None \<Rightarrow> new_board
      | Some state \<Rightarrow>
          (case wrap point of
             None \<Rightarrow> new_board
           | Some wrapped \<Rightarrow> AList.update wrapped state new_board))"

definition next_board :: "board \<Rightarrow> (cell \<Rightarrow> cell option) \<Rightarrow> board" where
  "next_board b wrap = fold (recalc b wrap) (points_to_recalc b) []"

text \<open>The board after \<open>n\<close> frames of the main loop's \<^verbatim>\<open>board = next_board(board, die)\<close>.\<close>

fun generations :: "nat \<Rightarrow> (cell \<Rightarrow> cell option) \<Rightarrow> board \<Rightarrow> board" where
  "generations 0 wrap b = b"
| "generations (Suc n) wrap b = generations n wrap (next_board b wrap)"

subsection \<open>The lookup in \<^verbatim>\<open>draw\<close>\<close>

text \<open>
  \<^verbatim>\<open>cells[state]\<close> on the sequence \<^verbatim>\<open>cell_strings\<close> built: Python indexing, where a
  negative index counts from the end and an index out of range raises
  \<^verbatim>\<open>IndexError\<close>.
\<close>

datatype error = ValueError | ZeroDivisionError | IndexError

definition cell_string :: "'a list \<Rightarrow> int \<Rightarrow> error + 'a" where
  "cell_string cells state =
     (let n = int (length cells); j = (if state < 0 then n + state else state)
      in if 0 \<le> j \<and> j < n then Inr (cells ! nat j) else Inl IndexError)"

subsection \<open>The random source and \<^verbatim>\<open>random_board\<close>\<close>

text \<open>
  The random source is an infinite sequence of raw draws, consumed from the front.
  \<^verbatim>\<open>randint(a, b)\<close> maps one draw into \<open>[a, b]\<close> (every value of the range is the image
  of some draw) and raises \<^verbatim>\<open>ValueError\<close> on an empty range, as
  \<^verbatim>\<open>random.randrange(a, b + 1)\<close> does.
\<close>

type_synonym rng = "nat \<Rightarrow> nat"

definition randint :: "int \<Rightarrow> int \<Rightarrow> rng \<Rightarrow> error + (int \<times> rng)" where
  "randint a b g =
     (if b < a then Inl ValueError
      else Inr (a + int (g 0 mod nat (b - a + 1)), \<lambda>i. g (Suc i)))"

text \<open>
  The generator expression under \<^verbatim>\<open>dict(...)\<close>: for each of the \<open>n\<close> rounds draw
  \<open>x\<close>, then \<open>y\<close>, and store \<^verbatim>\<open>((x, y), 0)\<close>; a key drawn again is overwritten.
\<close>

fun draw_cells :: "nat \<Rightarrow> int \<Rightarrow> int \<Rightarrow> rng \<Rightarrow> board \<Rightarrow> error + (board \<times> rng)" where
  "draw_cells 0 max_x max_y g acc = Inr (acc, g)"
| "draw_cells (Suc n) max_x max_y g acc =
     (case randint 0 max_x g of
        Inl e \<Rightarrow> Inl e
      | Inr (x, g1) \<Rightarrow>
          (case randint 0 max_y g1 of
             Inl e \<Rightarrow> Inl e
           | Inr (y, g2) \<Rightarrow> draw_cells n max_x max_y g2 (AList.update (x, y) 0 acc)))"

text \<open>
  \<^verbatim>\<open>xrange(int(max_x * max_y / load_factor))\<close>: floor division on Python 2 integers,
  \<^verbatim>\<open>ZeroDivisionError\<close> for a zero divisor, and no round at all for a count below one.
  The count is taken as an unbounded integer and memory as unlimited: CPython 2 refuses
  an \<^verbatim>\<open>xrange\<close> count that does not fit a C long, far beyond any terminal's size.
\<close>

definition random_board :: "int \<Rightarrow> int \<Rightarrow> int \<Rightarrow> rng \<Rightarrow> error + (board \<times> rng)" where
  "random_board max_x max_y load_factor g =
     (if load_factor = 0 then Inl ZeroDivisionError
      else draw_cells (nat (max_x * max_y div load_factor)) max_x max_y g [])"

subsection \<open>\<^verbatim>\<open>BoredomDetector\<close>\<close>

definition REPETITIONS :: int where
  "REPETITIONS = 14"

definition PATTERN_LENGTH :: int where
  "PATTERN_LENGTH = 4"

text \<open>The attributes \<^verbatim>\<open>iteration\<close>, \<^verbatim>\<open>num\<close> and \<^verbatim>\<open>times\<close> of the object.\<close>

record detector =
  iteration :: int
  num :: int
  times_count :: int

definition init_detector :: detector where
  "init_detector =
     \<lparr>iteration = REPETITIONS * PATTERN_LENGTH + 1, num = 0, times_count = 0\<rparr>"

text \<open>
  \<^verbatim>\<open>is_bored_of\<close> returns its answer together with the updated object and the rest of
  the random source; the source is read only in the reset branch.
\<close>

definition is_bored_of :: "detector \<Rightarrow> board \<Rightarrow> rng \<Rightarrow> error + (bool \<times> detector \<times> rng)" where
  "is_bored_of self b g =
     (let iteration1 = iteration self + 1;
          times1 = (if len b = num self then times_count self + 1 else times_count self);
          is_bored = (times1 > REPETITIONS)
      in if iteration1 > REPETITIONS * PATTERN_LENGTH \<or> is_bored
         then (case randint (- 2) 0 g of
                 Inl e \<Rightarrow> Inl e
               | Inr (j, g') \<Rightarrow>
                   Inr (is_bored, \<lparr>iteration = j, num = len b, times_count = 0\<rparr>, g'))
         else Inr (is_bored,
                   \<lparr>iteration = iteration1, num = num self, times_count = times1\<rparr>, g))"

text \<open>
  Two values a call in state \<open>self\<close> on board \<open>b\<close> computes: \<^verbatim>\<open>self.times\<close> after
  lines 193 and 194, and the condition of line 196 under which the reset branch runs.
\<close>

definition streak :: "detector \<Rightarrow> board \<Rightarrow> int" where
  "streak self b = (if len b = num self then times_count self + 1 else times_count self)"

definition reset_fires :: "detector \<Rightarrow> board \<Rightarrow> bool" where
  "reset_fires self b =
     (iteration self + 1 > REPETITIONS * PATTERN_LENGTH \<or> streak self b > REPETITIONS)"

text \<open>
  A sequence of calls, one per board: the log holds, for each call, the answer returned
  and whether the call reset the detector.
\<close>

fun feed :: "detector \<Rightarrow> rng \<Rightarrow> board list \<Rightarrow> error + ((bool \<times> bool) list \<times> detector \<times> rng)" where
  "feed self g [] = Inr ([], self, g)"
| "feed self g (b # bs) =
     (case is_bored_of self b g of
        Inl e \<Rightarrow> Inl e
      | Inr (r, self', g') \<Rightarrow>
          (case feed self' g' bs of
             Inl e \<Rightarrow> Inl e
           | Inr (log, self'', g'') \<Rightarrow> Inr ((r, reset_fires self b) # log, self'', g'')))"

text \<open>
  The same sequence of calls, keeping what each call left behind: the object and the
  rest of the random source after every call.
\<close>

fun states_after :: "detector \<Rightarrow> rng \<Rightarrow> board list \<Rightarrow> error + (detector \<times> rng) list" where
  "states_after self g [] = Inr []"
| "states_after self g (b # bs) =
     (case is_bored_of self b g of
        Inl e \<Rightarrow> Inl e
      | Inr (r, self', g') \<Rightarrow>
          (case states_after self' g' bs of
             Inl e \<Rightarrow> Inl e
           | Inr sts \<Rightarrow> Inr ((self', g') # sts)))"

text \<open>What a caller sees of a run: the answers, and which calls reset.\<close>

definition answers :: "error + ((bool \<times> bool) list \<times> detector \<times> rng) \<Rightarrow> bool list option" where
  "answers r = (case r of Inl e \<Rightarrow> None | Inr (log, self, g) \<Rightarrow> Some (map fst log))"

definition resets :: "error + ((bool \<times> bool) list \<times> detector \<times> rng) \<Rightarrow> bool list option" where
  "resets r = (case r of Inl e \<Rightarrow> None | Inr (log, self, g) \<Rightarrow> Some (map snd log))"

text \<open>The board a call of \<^verbatim>\<open>random_board\<close> returns, if it returns.\<close>

definition returned_board :: "error + (board \<times> rng) \<Rightarrow> board option" where
  "returned_board r = (case r of Inl e \<Rightarrow> None | Inr (b, g) \<Rightarrow> Some b)"

subsection \<open>Sample inputs\<close>

text \<open>A random source, and a board of \<open>n\<close> cells in a row.\<close>

definition sample_source :: rng where
  "sample_source i = 7 * i + 3"

definition row_board :: "nat \<Rightarrow> board" where
  "row_board n = map (\<lambda>i. ((int i, 0), 0)) [0..<n]"

text \<open>Three cells in a column at the left edge.\<close>

definition blinker :: board where
  "blinker = [((0, 0), 0), ((0, 1), 0), ((0, 2), 0)]"

text \<open>A block of two by two cells.\<close>

definition block :: board where
  "block = [((1, 1), 0), ((1, 2), 0), ((2, 1), 0), ((2, 2), 0)]"

text \<open>The glider, and a board moved by \<open>(dx, dy)\<close>.\<close>

definition glider :: board where
  "glider = [((1, 0), 0), ((2, 1), 0), ((0, 2), 0), ((1, 2), 0), ((2, 2), 0)]"

fun shift :: "int \<Rightarrow> int \<Rightarrow> cell \<Rightarrow> cell" where
  "shift dx dy (x, y) = (x + dx, y + dy)"

definition translate :: "int \<Rightarrow> int \<Rightarrow> board \<Rightarrow> board" where
  "translate dx dy b = map (\<lambda>(p, s). (shift dx dy p, s)) b"

section \<open>Properties of \<^verbatim>\<open>next_board\<close>\<close>

subsection \<open>Auxiliary facts\<close>

lemma die_None_or_self: "die w h p = None \<or> die w h p = Some p"
  by (cases p) simp


lemma in_board_die: "in_board (die w h n) b \<Longrightarrow> in_board (Some n) b"
  using die_None_or_self [of w h n] by auto

lemma live_count_filter:
  "live_count b wrap p = length (filter (\<lambda>n. in_board (wrap n) b) (neighbors p))"
proof -
  have "sum_list (map (\<lambda>n. of_bool (P n)) xs) = length (filter P xs)" for P and xs :: "cell list"
    by (induction xs) simp_all
  then show ?thesis by (simp add: live_count_def comp_def)
qed

lemma neighbors_sym: "q \<in> set (neighbors p) \<Longrightarrow> p \<in> set (neighbors q)"
proof -
  obtain x y where p: "p = (x, y)" by (cases p)
  assume "q \<in> set (neighbors p)"
  then have "q = (x + 1, y) \<or> q = (x - 1, y) \<or> q = (x, y + 1) \<or> q = (x, y - 1) \<or>
             q = (x + 1, y + 1) \<or> q = (x + 1, y - 1) \<or> q = (x - 1, y + 1) \<or> q = (x - 1, y - 1)"
    by (simp add: p)
  then show ?thesis
    by (elim disjE) (simp_all add: p)
qed

lemma distinct_neighbors: "distinct (neighbors p)"
  by (cases p) simp

lemma recalc_die:
  "map_of (recalc b (die w h) pt acc) p =
     (if p = pt \<and> die w h pt = Some pt \<and>
         next_state (live_count b (die w h) pt) (in_board (Some pt) b) \<noteq> None
      then next_state (live_count b (die w h) pt) (in_board (Some pt) b)
      else map_of acc p)"
  using die_None_or_self [of w h pt]
  by (auto simp: recalc_def update_conv' split: option.splits)

lemma fold_recalc_die:
  "map_of (fold (recalc b (die w h)) ps acc) p =
     (if p \<in> set ps \<and> die w h p = Some p \<and>
         next_state (live_count b (die w h) p) (in_board (Some p) b) \<noteq> None
      then next_state (live_count b (die w h) p) (in_board (Some p) b)
      else map_of acc p)"
  by (induction ps arbitrary: acc) (auto simp: recalc_die)

lemma live_count_pos:
  assumes "0 < live_count b wrap p"
  shows "\<exists>n \<in> set (neighbors p). in_board (wrap n) b"
proof (rule ccontr)
  assume "\<not> ?thesis"
  then have "filter (\<lambda>n. in_board (wrap n) b) (neighbors p) = []"
    by (simp add: filter_empty_conv)
  with assms show False by (simp add: live_count_filter)
qed

text \<open>A point outside the recalculated set is dead and has no live neighbour.\<close>

lemma not_candidate_no_state:
  assumes "p \<notin> set (points_to_recalc b)"
  shows "next_state (live_count b (die w h) p) (in_board (Some p) b) = None"
proof -
  have nl: "\<not> in_board (Some p) b" using assms by (simp add: points_to_recalc_def)
  have "live_count b (die w h) p = 0"
  proof (rule ccontr)
    assume "live_count b (die w h) p \<noteq> 0"
    then obtain n where n: "n \<in> set (neighbors p)" "in_board (die w h n) b"
      using live_count_pos by blast
    then have "n \<in> set (keys b)" using in_board_die by fastforce
    moreover have "p \<in> set (neighbors n)" using n(1) by (rule neighbors_sym)
    ultimately have "p \<in> set (points_to_recalc b)" by (auto simp: points_to_recalc_def)
    with assms show False by simp
  qed
  then show ?thesis using nl by (simp add: next_state_def)
qed

text \<open>
  The dictionary \<^verbatim>\<open>next_board(board, die)\<close> returns, key by key. It does not depend on
  the order in which the set \<^verbatim>\<open>points_to_recalc\<close> is iterated.
\<close>

lemma next_board_die_lookup:
  "map_of (next_board b (die w h)) p =
     (if die w h p = Some p
      then next_state (live_count b (die w h) p) (in_board (Some p) b) else None)"
  using not_candidate_no_state [of p b w h]
  by (auto simp: next_board_def fold_recalc_die)

lemma recalc_order_irrelevant:
  assumes "set ps = set (points_to_recalc b)"
  shows "map_of (fold (recalc b (die w h)) ps []) = map_of (next_board b (die w h))"
  using assms by (auto simp: fun_eq_iff next_board_def fold_recalc_die)


lemma blinker_count: "live_count blinker (die 5 5) (- 1, 1) = 3"
  by (simp add: live_count_def blinker_def keys_def)

lemma blinker_count_inside: "live_count blinker (die 5 5) (1, 1) = 3"
  by (simp add: live_count_def blinker_def keys_def)

subsection \<open>The state of a recalculated point\<close>

text \<open>
  C1, as stated, fails: with the column \<open>(0,0), (0,1), (0,2)\<close> live on a 5 by 5 grid,
  the point \<open>(-1, 1)\<close> is examined, is not live and has live-neighbour count 3, yet it
  is absent from the output instead of being stored with state 1.
\<close>

theorem precedence_counterexample:
  "(- 1, 1) \<in> set (points_to_recalc blinker) \<and>
   live_count blinker (die 5 5) (- 1, 1) = 3 \<and>
   \<not> in_board (Some (- 1, 1)) blinker \<and>
   map_of (next_board blinker (die 5 5)) (- 1, 1) = None"
proof -
  have "(- 1, 1) \<in> set (points_to_recalc blinker)"
    by (simp add: points_to_recalc_def blinker_def keys_def)
  moreover have "\<not> in_board (Some (- 1, 1)) blinker"
    by (simp add: blinker_def keys_def)
  moreover have "map_of (next_board blinker (die 5 5)) (- 1, 1) = None"
    by (simp add: next_board_die_lookup)
  ultimately show ?thesis using blinker_count by simp
qed

text \<open>
  C1, amended: under the \<^verbatim>\<open>die\<close> policy a point that \<^verbatim>\<open>die\<close> keeps (one inside the
  grid) gets its state by the stated precedence: count 3 and live gives state 0, count 3
  and not live gives state 1, count 2 and live gives state 2, anything else leaves the
  point out of the output; a point that \<^verbatim>\<open>die\<close> drops is absent from the output
  whatever its count.
\<close>

theorem next_board_precedence:
  "map_of (next_board b (die w h)) p =
     (if die w h p = None then None
      else if live_count b (die w h) p = 3 \<and> in_board (Some p) b then Some 0
      else if live_count b (die w h) p = 3 then Some 1
      else if live_count b (die w h) p = 2 \<and> in_board (Some p) b then Some 2
      else None)"
  using die_None_or_self [of w h p]
  by (auto simp: next_board_die_lookup next_state_def)

theorem next_board_precedence_witness:
  "map_of (next_board block (die 5 5)) (1, 1) = Some 0 \<and>
   map_of (next_board blinker (die 5 5)) (1, 1) = Some 1 \<and>
   map_of (next_board blinker (die 5 5)) (0, 1) = Some 2 \<and>
   map_of (next_board blinker (die 5 5)) (0, 0) = None"
proof -
  have "live_count blinker (die 5 5) (0, 1) = 2" "live_count blinker (die 5 5) (0, 0) = 1"
    "live_count block (die 5 5) (1, 1) = 3"
    by (simp_all add: live_count_def blinker_def block_def keys_def)
  moreover have "in_board (Some (0, 1)) blinker" "\<not> in_board (Some (1, 1)) blinker"
    "in_board (Some (1, 1)) block"
    by (simp_all add: blinker_def block_def keys_def)
  ultimately show ?thesis
    using next_board_precedence [of blinker 5 5 "(1, 1)"]
      next_board_precedence [of blinker 5 5 "(0, 1)"]
      next_board_precedence [of blinker 5 5 "(0, 0)"]
      next_board_precedence [of block 5 5 "(1, 1)"] blinker_count_inside
    by simp
qed

subsection \<open>Clipping\<close>



subsection \<open>An isolated cell\<close>

lemma filter_length_mono:
  "(\<And>x. P x \<Longrightarrow> Q x) \<Longrightarrow> length (filter P xs) \<le> length (filter Q xs)"
  by (induction xs) auto

lemma single_board_count: "live_count [(c, s)] (die w h) p \<le> 1"
proof -
  have "live_count [(c, s)] (die w h) p
          \<le> length (filter (\<lambda>n. n = c) (neighbors p))"
    unfolding live_count_filter
  proof (rule filter_length_mono)
    fix n
    assume "in_board (die w h n) [(c, s)]"
    then have "in_board (Some n) [(c, s)]" by (rule in_board_die)
    then show "n = c" by (simp add: keys_def)
  qed
  also have "\<dots> = card ({n. n = c} \<inter> set (neighbors p))"
    by (simp add: distinct_length_filter distinct_neighbors)
  also have "\<dots> \<le> card {c}"
    by (rule card_mono) auto
  finally show ?thesis by simp
qed

text \<open>
  C8: one advance of the single-cell board \<^verbatim>\<open>{c: s}\<close> under the \<^verbatim>\<open>die\<close> policy
  returns the empty board, for every cell \<open>c\<close> (inside the grid or not) and every
  state value \<open>s\<close>.
\<close>

theorem single_cell_dies: "next_board [(c, s)] (die w h) = []"
proof -
  have "map_of (next_board [(c, s)] (die w h)) p = None" for p
    using single_board_count [of c s w h p]
    by (simp add: next_board_die_lookup next_state_def)
  then have "map_of (next_board [(c, s)] (die w h)) = Map.empty"
    by (simp add: fun_eq_iff)
  then show ?thesis by (simp only: map_of_eq_empty_iff)
qed

theorem single_cell_dies_witness: "next_board [((2, 2), 1)] (die 5 5) = []"
  using single_cell_dies [of "(2, 2)" 1 5 5] by simp

subsection \<open>The states \<^verbatim>\<open>next_board\<close> stores\<close>

lemma update_entries: "set (AList.update k v al) \<subseteq> insert (k, v) (set al)"
  by (induction al) auto

lemma next_state_range: "next_state n l = Some s \<Longrightarrow> s \<in> {0, 1, 2}"
  by (auto simp: next_state_def split: if_splits)

lemma recalc_states:
  assumes "\<forall>(k, v) \<in> set acc. v \<in> {0, 1, 2}"
  shows "\<forall>(k, v) \<in> set (recalc b wrap pt acc). v \<in> {0, 1, 2}"
proof (cases "next_state (live_count b wrap pt) (in_board (Some pt) b)")
  case None
  then show ?thesis using assms by (simp add: recalc_def)
next
  case (Some s)
  then have s: "s \<in> {0, 1, 2}" by (rule next_state_range)
  show ?thesis
  proof (cases "wrap pt")
    case None
    then show ?thesis using assms Some by (simp add: recalc_def)
  next
    case (Some q)
    have "set (recalc b wrap pt acc) \<subseteq> insert (q, s) (set acc)"
      using Some \<open>next_state _ _ = Some s\<close> by (simp add: recalc_def update_entries)
    then show ?thesis using assms s by auto
  qed
qed

lemma fold_recalc_states:
  "\<forall>(k, v) \<in> set acc. v \<in> {0, 1, 2} \<Longrightarrow>
   \<forall>(k, v) \<in> set (fold (recalc b wrap) ps acc). v \<in> {0, 1, 2}"
proof (induction ps arbitrary: acc)
  case Nil
  then show ?case by simp
next
  case (Cons pt ps)
  from Cons.prems have "\<forall>(k, v) \<in> set (recalc b wrap pt acc). v \<in> {0, 1, 2}"
    by (rule recalc_states)
  then show ?case using Cons.IH by simp
qed

lemma next_board_states: "\<forall>(k, v) \<in> set (next_board b wrap). v \<in> {0, 1, 2}"
  unfolding next_board_def by (rule fold_recalc_states) simp

section \<open>Properties of \<^verbatim>\<open>random_board\<close>\<close>

subsection \<open>Auxiliary facts\<close>

lemma randint_range:
  assumes "randint a b g = Inr (v, g')"
  shows "a \<le> v \<and> v \<le> b"
proof -
  from assms have ab: "a \<le> b" and v: "v = a + int (g 0 mod nat (b - a + 1))"
    by (auto simp: randint_def split: if_splits)
  have "g 0 mod nat (b - a + 1) < nat (b - a + 1)"
    using ab by (intro mod_less_divisor) simp
  then show ?thesis using ab v by linarith
qed

lemma randint_returns:
  "a \<le> b \<Longrightarrow> \<exists>v g'. randint a b g = Inr (v, g')"
  by (simp add: randint_def)

text \<open>Every value of the range is drawn by some source.\<close>

lemma randint_onto:
  assumes "a \<le> v" "v \<le> b"
  shows "\<exists>g'. randint a b (\<lambda>i. nat (v - a)) = Inr (v, g')"
proof -
  have "nat (v - a) mod nat (b - a + 1) = nat (v - a)"
    using assms by (intro mod_less) linarith
  then show ?thesis using assms by (simp add: randint_def)
qed

lemma draw_cells_states:
  "draw_cells n max_x max_y g acc = Inr (bd, g') \<Longrightarrow>
   \<forall>(k, v) \<in> set acc. v = 0 \<Longrightarrow> \<forall>(k, v) \<in> set bd. v = 0"
proof (induction n arbitrary: g acc)
  case 0
  then show ?case by simp
next
  case (Suc n)
  from Suc.prems(1) obtain x g1 y g2 where
    run: "draw_cells n max_x max_y g2 (AList.update (x, y) 0 acc) = Inr (bd, g')"
    by (auto split: sum.splits)
  have "\<forall>(k, v) \<in> set (AList.update (x, y) 0 acc). v = 0"
    using update_entries [of "(x, y)" 0 acc] Suc.prems(2) by auto
  with run show ?case by (rule Suc.IH)
qed

lemma draw_cells_bounds:
  assumes "0 \<le> max_x" "0 \<le> max_y"
  shows "\<exists>bd g'. draw_cells n max_x max_y g acc = Inr (bd, g') \<and>
           fst ` set bd \<subseteq> fst ` set acc \<union> {(x, y). 0 \<le> x \<and> x \<le> max_x \<and> 0 \<le> y \<and> y \<le> max_y} \<and>
           card (fst ` set bd) \<le> card (fst ` set acc) + n"
proof (induction n arbitrary: g acc)
  case 0
  then show ?case by simp
next
  case (Suc n)
  obtain x g1 where x: "randint 0 max_x g = Inr (x, g1)"
    using randint_returns [OF assms(1)] by blast
  obtain y g2 where y: "randint 0 max_y g1 = Inr (y, g2)"
    using randint_returns [OF assms(2)] by blast
  have xy: "0 \<le> x \<and> x \<le> max_x \<and> 0 \<le> y \<and> y \<le> max_y"
    using randint_range [OF x] randint_range [OF y] by simp
  let ?acc = "AList.update (x, y) 0 acc"
  obtain bd g' where bd: "draw_cells n max_x max_y g2 ?acc = Inr (bd, g')"
    and sub: "fst ` set bd \<subseteq> fst ` set ?acc \<union> {(x, y). 0 \<le> x \<and> x \<le> max_x \<and> 0 \<le> y \<and> y \<le> max_y}"
    and crd: "card (fst ` set bd) \<le> card (fst ` set ?acc) + n"
    using Suc.IH [of g2 ?acc] by blast
  have dom: "fst ` set ?acc = insert (x, y) (fst ` set acc)"
    by (simp add: dom_update)
  have "card (fst ` set ?acc) \<le> Suc (card (fst ` set acc))"
    unfolding dom by (simp add: card_insert_if)
  with crd have "card (fst ` set bd) \<le> card (fst ` set acc) + Suc n" by simp
  moreover have "fst ` set bd \<subseteq> fst ` set acc \<union> {(x, y). 0 \<le> x \<and> x \<le> max_x \<and> 0 \<le> y \<and> y \<le> max_y}"
    using sub xy unfolding dom by auto
  moreover have "draw_cells (Suc n) max_x max_y g acc = Inr (bd, g')"
    using x y bd by simp
  ultimately show ?case by blast
qed

lemma set_keys: "set (keys b) = fst ` set b"
  by (simp add: keys_def)

lemma len_card: "len b = int (card (fst ` set b))"
  by (simp add: len_def keys_def length_remdups_card_conv)

lemma sample_draw:
  "returned_board (random_board 3 3 1 sample_source) = Some [((3, 2), 0), ((1, 0), 0)]"
  by code_simp

lemma returned_board_SomeD: "returned_board r = Some b \<Longrightarrow> \<exists>g. r = Inr (b, g)"
  by (cases r) (auto simp: returned_board_def)

lemma sample_draw_run:
  "\<exists>g'. random_board 3 3 1 sample_source = Inr ([((3, 2), 0), ((1, 0), 0)], g')"
  using sample_draw by (rule returned_board_SomeD)

subsection \<open>The initial state of a generated cell\<close>

text \<open>
  C3, as stated, fails: \<^verbatim>\<open>random_board(3, 3, 1)\<close> on the sample source returns the
  cells \<open>(3, 2)\<close> and \<open>(1, 0)\<close>, both with state 0, not with state 2.
\<close>

theorem random_board_state_counterexample:
  "returned_board (random_board 3 3 1 sample_source) = Some [((3, 2), 0), ((1, 0), 0)] \<and>
   map_of ([((3, 2), 0), ((1, 0), 0)] :: board) (3, 2) \<noteq> Some 2"
  using sample_draw by simp

text \<open>
  C3, amended: every cell of a board \<^verbatim>\<open>random_board\<close> returns has the same fixed
  state 0, the value \<^verbatim>\<open>next_board\<close> gives a live cell with three live neighbours
  (not 2, the value of the two-neighbour branch).
\<close>

theorem random_board_state:
  "random_board max_x max_y load_factor g = Inr (bd, g') \<Longrightarrow>
   (\<forall>(k, v) \<in> set bd. v = 0) \<and> next_state 3 True = Some 0"
proof -
  assume "random_board max_x max_y load_factor g = Inr (bd, g')"
  then have "draw_cells (nat (max_x * max_y div load_factor)) max_x max_y g [] = Inr (bd, g')"
    by (simp add: random_board_def split: if_splits)
  then have "\<forall>(k, v) \<in> set bd. v = 0"
    by (rule draw_cells_states) simp
  then show ?thesis by (simp add: next_state_def)
qed

theorem random_board_state_witness:
  "\<exists>g'. random_board 3 3 1 sample_source = Inr ([((3, 2), 0), ((1, 0), 0)], g') \<and>
     (\<forall>(k, v) \<in> set ([((3, 2), 0), ((1, 0), 0)] :: board). v = 0)"
proof -
  from sample_draw_run obtain g' where
    r: "random_board 3 3 1 sample_source = Inr ([((3, 2), 0), ((1, 0), 0)], g')" ..
  from random_board_state [OF r]
  have "\<forall>(k, v) \<in> set ([((3, 2), 0), ((1, 0), 0)] :: board). v = 0" by (rule conjunct1)
  with r show ?thesis by (intro exI conjI)
qed

subsection \<open>Coordinates and size of a generated board\<close>

text \<open>
  C9: for \<open>max_x \<ge> 0\<close>, \<open>max_y \<ge> 0\<close> and \<open>load_factor \<ge> 1\<close>, whatever the random
  source yields, \<^verbatim>\<open>random_board\<close> returns a board; each of its keys \<open>(x, y)\<close> has
  \<open>0 \<le> x \<le> max_x\<close> and \<open>0 \<le> y \<le> max_y\<close>, and it has at most
  \<open>floor(max_x * max_y / load_factor)\<close> keys.
\<close>

theorem random_board_bounds:
  assumes "0 \<le> max_x" "0 \<le> max_y" "1 \<le> load_factor"
  shows "\<exists>bd g'. random_board max_x max_y load_factor g = Inr (bd, g') \<and>
           (\<forall>(x, y) \<in> set (keys bd). 0 \<le> x \<and> x \<le> max_x \<and> 0 \<le> y \<and> y \<le> max_y) \<and>
           len bd \<le> max_x * max_y div load_factor"
proof -
  let ?n = "nat (max_x * max_y div load_factor)"
  obtain bd g' where bd: "draw_cells ?n max_x max_y g [] = Inr (bd, g')"
    and sub: "fst ` set bd \<subseteq> fst ` set ([] :: board) \<union> {(x, y). 0 \<le> x \<and> x \<le> max_x \<and> 0 \<le> y \<and> y \<le> max_y}"
    and crd: "card (fst ` set bd) \<le> card (fst ` set ([] :: board)) + ?n"
    using draw_cells_bounds [OF assms(1,2), of ?n g "[]"] by blast
  have "0 \<le> max_x * max_y div load_factor"
    using assms by (simp add: pos_imp_zdiv_nonneg_iff)
  with crd have "len bd \<le> max_x * max_y div load_factor"
    by (simp add: len_card)
  moreover have "\<forall>(x, y) \<in> set (keys bd). 0 \<le> x \<and> x \<le> max_x \<and> 0 \<le> y \<and> y \<le> max_y"
    using sub by (auto simp: set_keys)
  moreover have "random_board max_x max_y load_factor g = Inr (bd, g')"
    using bd assms(3) by (simp add: random_board_def)
  ultimately show ?thesis by blast
qed

theorem random_board_bounds_witness:
  "\<exists>bd g'. random_board 3 3 1 sample_source = Inr (bd, g') \<and>
     (\<forall>(x, y) \<in> set (keys bd). 0 \<le> x \<and> x \<le> 3 \<and> 0 \<le> y \<and> y \<le> 3) \<and> len bd \<le> 9"
  using random_board_bounds [of 3 3 1 sample_source] by simp

section \<open>The states the core emits\<close>

lemma blinker_next: "next_board blinker (die 5 5) = [((0, 1), 2), ((1, 1), 1)]"
  by code_simp

text \<open>
  C10: every state stored in a board that \<^verbatim>\<open>next_board\<close> returns (for any input board
  and any policy \<open>wrap\<close>) or that \<^verbatim>\<open>random_board\<close> returns is 0, 1 or 2, and
  \<^verbatim>\<open>cells[state]\<close> on a table of three entries finds an entry for each of them.
\<close>

theorem states_in_range:
  "(\<forall>(k, v) \<in> set (next_board b wrap). v \<in> {0, 1, 2}) \<and>
   (random_board max_x max_y load_factor g = Inr (bd, g') \<longrightarrow> (\<forall>(k, v) \<in> set bd. v \<in> {0, 1, 2})) \<and>
   (length cells = 3 \<and> s \<in> {0, 1, 2} \<longrightarrow> cell_string cells s = Inr (cells ! nat s))"
proof -
  have "\<forall>(k, v) \<in> set bd. v \<in> {0, 1, 2}"
    if r: "random_board max_x max_y load_factor g = Inr (bd, g')"
  proof -
    from r have "draw_cells (nat (max_x * max_y div load_factor)) max_x max_y g [] = Inr (bd, g')"
      by (simp add: random_board_def split: if_splits)
    then have "\<forall>(k, v) \<in> set bd. v = 0"
      by (rule draw_cells_states) simp
    then show ?thesis by auto
  qed
  moreover have "cell_string cells s = Inr (cells ! nat s)"
    if "length cells = 3 \<and> s \<in> {0, 1, 2}"
    using that by (auto simp: cell_string_def)
  ultimately show ?thesis using next_board_states [of b wrap] by blast
qed

theorem states_in_range_witness:
  "((1, 1), 1) \<in> set (next_board blinker (die 5 5)) \<and> (1 :: int) \<in> {0, 1, 2} \<and>
   (\<exists>g'. random_board 3 3 1 sample_source = Inr ([((3, 2), 0), ((1, 0), 0)], g')) \<and>
   cell_string [''red'', ''green'', ''blue''] 2 = Inr ''blue''"
proof -
  from sample_draw_run obtain g' where
    r: "random_board 3 3 1 sample_source = Inr ([((3, 2), 0), ((1, 0), 0)], g')" ..
  note t = states_in_range [of blinker "die 5 5" 3 3 1 sample_source
      "[((3, 2), 0), ((1, 0), 0)]" g' "[''red'', ''green'', ''blue'']" 2]
  have "length [''red'', ''green'', ''blue''] = 3 \<and> (2 :: int) \<in> {0, 1, 2}" by simp
  with t have "cell_string [''red'', ''green'', ''blue''] 2 = Inr ([''red'', ''green'', ''blue''] ! nat 2)"
    by blast
  then have "cell_string [''red'', ''green'', ''blue''] 2 = Inr ''blue''"
    by (simp add: eval_nat_numeral)
  moreover from t have "\<forall>(k, v) \<in> set (next_board blinker (die 5 5)). v \<in> {0, 1, 2}"
    by (rule conjunct1)
  then have "(1 :: int) \<in> {0, 1, 2}" by (simp add: blinker_next)
  ultimately show ?thesis using r by (simp add: blinker_next)
qed

section \<open>Properties of \<^verbatim>\<open>BoredomDetector\<close>\<close>

subsection \<open>One call\<close>

text \<open>A call that does not reset answers \<open>False\<close> and leaves the random source alone.\<close>

lemma call_without_reset:
  assumes "\<not> reset_fires self b"
  shows "is_bored_of self b g =
           Inr (False, \<lparr>iteration = iteration self + 1, num = num self,
                        times_count = streak self b\<rparr>, g)"
  using assms by (auto simp: is_bored_of_def reset_fires_def streak_def Let_def)

text \<open>A call that resets draws the new \<^verbatim>\<open>iteration\<close> from \<open>{-2, -1, 0}\<close>.\<close>

lemma call_with_reset:
  assumes "reset_fires self b"
  shows "\<exists>j g'. - 2 \<le> j \<and> j \<le> 0 \<and>
           is_bored_of self b g =
             Inr (REPETITIONS < streak self b,
                  \<lparr>iteration = j, num = len b, times_count = 0\<rparr>, g')"
proof -
  obtain j g' where j: "randint (- 2) 0 g = Inr (j, g')"
    using randint_returns [of "- 2" 0 g] by auto
  then have "- 2 \<le> j \<and> j \<le> 0" by (rule randint_range)
  moreover have "is_bored_of self b g =
      Inr (REPETITIONS < streak self b, \<lparr>iteration = j, num = len b, times_count = 0\<rparr>, g')"
    using assms j by (auto simp: is_bored_of_def reset_fires_def streak_def Let_def)
  ultimately show ?thesis by blast
qed

lemma answer_is_streak:
  assumes "is_bored_of self b g = Inr (r, self', g')"
  shows "r = (REPETITIONS < streak self b)"
proof (cases "reset_fires self b")
  case True
  then show ?thesis using call_with_reset [OF True, of g] assms by auto
next
  case False
  then have "\<not> REPETITIONS < streak self b" by (simp add: reset_fires_def)
  then show ?thesis using call_without_reset [OF False, of g] assms by simp
qed

lemma is_bored_of_returns: "\<exists>r self' g'. is_bored_of self b g = Inr (r, self', g')"
proof (cases "reset_fires self b")
  case True
  then show ?thesis using call_with_reset [OF True, of g] by blast
next
  case False
  then show ?thesis using call_without_reset [OF False, of g] by blast
qed

subsection \<open>A sequence of calls\<close>

lemma feed_returns:
  "\<exists>log self' g'. feed self g bs = Inr (log, self', g') \<and> length log = length bs"
proof (induction bs arbitrary: self g)
  case Nil
  then show ?case by simp
next
  case (Cons b bs)
  obtain r self1 g1 where step: "is_bored_of self b g = Inr (r, self1, g1)"
    using is_bored_of_returns by blast
  obtain log self' g' where "feed self1 g1 bs = Inr (log, self', g')" "length log = length bs"
    using Cons.IH by blast
  then show ?case using step by simp
qed

lemma feed_Cons:
  assumes "is_bored_of self b g = Inr (r, self1, g1)"
    and "feed self1 g1 bs = Inr (log, self', g')"
  shows "feed self g (b # bs) = Inr ((r, reset_fires self b) # log, self', g')"
  using assms by simp

lemma feed_ConsE:
  assumes "feed self g (b # bs) = Inr (log, self', g')"
  obtains r self1 g1 log1 where "is_bored_of self b g = Inr (r, self1, g1)"
    and "feed self1 g1 bs = Inr (log1, self', g')"
    and "log = (r, reset_fires self b) # log1"
  using assms by (auto split: sum.splits)

text \<open>
  While the population differs from the recorded one and the periodic threshold is not
  reached, nothing happens but the count of iterations.
\<close>

lemma quiet_run:
  assumes "\<forall>b \<in> set bs. len b \<noteq> num self"
    and "times_count self \<le> REPETITIONS"
    and "iteration self + int (length bs) \<le> REPETITIONS * PATTERN_LENGTH"
  shows "\<exists>self' g'. feed self g bs = Inr (map (\<lambda>b. (False, False)) bs, self', g')"
  using assms
proof (induction bs arbitrary: self)
  case Nil
  then show ?case by simp
next
  case (Cons b bs)
  have st: "streak self b = times_count self"
    using Cons.prems(1) by (simp add: streak_def)
  have nr: "\<not> reset_fires self b"
    using Cons.prems(2,3) st by (simp add: reset_fires_def)
  let ?self1 = "\<lparr>iteration = iteration self + 1, num = num self, times_count = streak self b\<rparr>"
  have step: "is_bored_of self b g = Inr (False, ?self1, g)"
    using nr by (rule call_without_reset)
  have "\<exists>self' g'. feed ?self1 g bs = Inr (map (\<lambda>b. (False, False)) bs, self', g')"
    using Cons.prems st by (intro Cons.IH) simp_all
  then obtain self' g' where "feed ?self1 g bs = Inr (map (\<lambda>b. (False, False)) bs, self', g')"
    by blast
  with step have "feed self g (b # bs) =
      Inr ((False, reset_fires self b) # map (\<lambda>b. (False, False)) bs, self', g')"
    by (rule feed_Cons)
  then show ?case using nr by simp
qed

text \<open>
  While the population equals the recorded one and no periodic reset intervenes, the
  streak grows by one per call until it passes \<^verbatim>\<open>REPETITIONS\<close>.
\<close>

lemma streak_run:
  assumes "\<forall>b \<in> set bs. len b = num self"
    and "times_count self \<le> REPETITIONS"
    and "REPETITIONS < times_count self + int (length bs)"
    and "iteration self + int (length bs) \<le> REPETITIONS * PATTERN_LENGTH"
  shows "\<exists>log self' g'. feed self g bs = Inr (log, self', g') \<and> True \<in> fst ` set log"
  using assms
proof (induction bs arbitrary: self g)
  case Nil
  then show ?case by simp
next
  case (Cons b bs)
  have st: "streak self b = times_count self + 1"
    using Cons.prems(1) by (simp add: streak_def)
  show ?case
  proof (cases "REPETITIONS < streak self b")
    case True
    then have "reset_fires self b" by (simp add: reset_fires_def)
    then obtain j g1 where step: "is_bored_of self b g =
        Inr (REPETITIONS < streak self b, \<lparr>iteration = j, num = len b, times_count = 0\<rparr>, g1)"
      using call_with_reset by blast
    obtain log self' g' where
      "feed \<lparr>iteration = j, num = len b, times_count = 0\<rparr> g1 bs = Inr (log, self', g')"
      using feed_returns by blast
    with step have "feed self g (b # bs) =
        Inr ((REPETITIONS < streak self b, reset_fires self b) # log, self', g')"
      by (rule feed_Cons)
    then show ?thesis using True by force
  next
    case False
    then have nr: "\<not> reset_fires self b"
      using Cons.prems(4) by (simp add: reset_fires_def)
    let ?self1 = "\<lparr>iteration = iteration self + 1, num = num self, times_count = streak self b\<rparr>"
    have step: "is_bored_of self b g = Inr (False, ?self1, g)"
      using nr by (rule call_without_reset)
    have "\<exists>log self' g'. feed ?self1 g bs = Inr (log, self', g') \<and> True \<in> fst ` set log"
      using Cons.prems False st by (intro Cons.IH) simp_all
    then obtain log self' g' where rest: "feed ?self1 g bs = Inr (log, self', g')"
      and t: "True \<in> fst ` set log" by blast
    from step rest have "feed self g (b # bs) =
        Inr ((False, reset_fires self b) # log, self', g')"
      by (rule feed_Cons)
    then show ?thesis using t by force
  qed
qed

lemma answers_feed: "feed self g bs = Inr (log, self', g') \<Longrightarrow> answers (feed self g bs) = Some (map fst log)"
  by (simp add: answers_def)

lemma resets_feed: "feed self g bs = Inr (log, self', g') \<Longrightarrow> resets (feed self g bs) = Some (map snd log)"
  by (simp add: resets_def)

lemma first_call_resets: "reset_fires init_detector b"
  by (simp add: reset_fires_def init_detector_def)

lemma len_row_board: "len (row_board n) = int n"
proof -
  have "map fst (row_board n) = map (\<lambda>i. (int i, 0)) [0..<n]"
    by (simp add: row_board_def comp_def)
  moreover have "distinct (map (\<lambda>i. (int i, 0 :: int)) [0..<n])"
    by (simp add: distinct_map inj_on_def)
  ultimately show ?thesis by (simp add: len_def keys_def distinct_remdups_id)
qed

subsection \<open>The periodic reset\<close>

text \<open>What the reset branch leaves behind, with the jitter it drew.\<close>

lemma reset_effect:
  assumes "reset_fires self b"
  shows "is_bored_of self b g =
           Inr (REPETITIONS < streak self b,
                \<lparr>iteration = int (g 0 mod 3) - 2, num = len b, times_count = 0\<rparr>,
                \<lambda>n. g (Suc n))"
  using assms by (auto simp: is_bored_of_def reset_fires_def streak_def randint_def Let_def)

lemma quiet_states:
  assumes "\<forall>b \<in> set bs. len b \<noteq> num self"
    and "times_count self \<le> REPETITIONS"
    and "iteration self + int (length bs) \<le> REPETITIONS * PATTERN_LENGTH"
  shows "states_after self g bs =
           Inr (map (\<lambda>i. (\<lparr>iteration = iteration self + 1 + int i, num = num self,
                               times_count = times_count self\<rparr>, g)) [0..<length bs])"
  using assms
proof (induction bs arbitrary: self)
  case Nil
  then show ?case by simp
next
  case (Cons b bs)
  have st: "streak self b = times_count self"
    using Cons.prems(1) by (simp add: streak_def)
  have nr: "\<not> reset_fires self b"
    using Cons.prems(2,3) st by (simp add: reset_fires_def)
  let ?self1 = "\<lparr>iteration = iteration self + 1, num = num self, times_count = times_count self\<rparr>"
  have step: "is_bored_of self b g = Inr (False, ?self1, g)"
    using call_without_reset [OF nr, of g] st by simp
  have "states_after ?self1 g bs =
      Inr (map (\<lambda>i. (\<lparr>iteration = iteration ?self1 + 1 + int i, num = num ?self1,
                          times_count = times_count ?self1\<rparr>, g)) [0..<length bs])"
    using Cons.prems by (intro Cons.IH) simp_all
  then have rest: "states_after ?self1 g bs =
      Inr (map (\<lambda>i. (\<lparr>iteration = iteration self + 1 + int (Suc i), num = num self,
                          times_count = times_count self\<rparr>, g)) [0..<length bs])"
    by (simp add: add.commute add.left_commute)
  let ?F = "\<lambda>i. (\<lparr>iteration = iteration self + 1 + int i, num = num self,
                      times_count = times_count self\<rparr>, g)"
  have split: "map ?F [0..<length (b # bs)] = ?F 0 # map (\<lambda>i. ?F (Suc i)) [0..<length bs]"
    by (simp only: length_Cons map_upt_Suc)
  have "states_after self g (b # bs) = Inr (?F 0 # map (\<lambda>i. ?F (Suc i)) [0..<length bs])"
    using step rest by simp
  then show ?case by (simp only: split)
qed

text \<open>
  C5: from a freshly constructed detector, on any 57 boards of strictly increasing
  population and for any jitter, exactly one call runs the reset branch, and it is the
  first. The first call draws the jitter \<open>j\<close> from \<open>{-2, -1, 0}\<close>, records the
  population of the first board and leaves the streak at zero; each of the other 56
  calls only adds one to \<^verbatim>\<open>iteration\<close>: it draws nothing from the random source and
  leaves the recorded population and the zero streak as they are. Every call answers
  \<open>False\<close>.
\<close>

theorem one_reset_in_57_calls:
  assumes "length bs = 57" and "sorted_wrt (<) (map len bs)"
  shows "resets (feed init_detector g bs) = Some (True # replicate 56 False) \<and>
         answers (feed init_detector g bs) = Some (replicate 57 False) \<and>
         - 2 \<le> int (g 0 mod 3) - 2 \<and> int (g 0 mod 3) - 2 \<le> 0 \<and>
         states_after init_detector g bs =
           Inr (map (\<lambda>i. (\<lparr>iteration = int (g 0 mod 3) - 2 + int i, num = len (hd bs),
                               times_count = 0\<rparr>, \<lambda>n. g (Suc n))) [0..<57])"
proof -
  from assms(1) obtain b rest where bs: "bs = b # rest" and rest: "length rest = 56"
    by (cases bs) simp_all
  from assms(2) have later: "\<forall>c \<in> set rest. len b < len c"
    by (simp add: bs)
  let ?j = "int (g 0 mod 3) - 2"
  let ?g1 = "\<lambda>n. g (Suc n)"
  let ?self1 = "\<lparr>iteration = ?j, num = len b, times_count = 0\<rparr>"
  have j: "- 2 \<le> ?j" "?j \<le> 0" by simp_all
  have "streak init_detector b \<le> 1"
    by (simp add: streak_def init_detector_def)
  then have calm: "\<not> REPETITIONS < streak init_detector b"
    by (simp add: REPETITIONS_def)
  have step: "is_bored_of init_detector b g = Inr (False, ?self1, ?g1)"
    using reset_effect [OF first_call_resets, of b g] calm by simp
  have q1: "\<forall>c \<in> set rest. len c \<noteq> num ?self1" using later by auto
  have q2: "times_count ?self1 \<le> REPETITIONS" by (simp add: REPETITIONS_def)
  have q3: "iteration ?self1 + int (length rest) \<le> REPETITIONS * PATTERN_LENGTH"
    using j rest by (simp add: REPETITIONS_def PATTERN_LENGTH_def)
  obtain self' g' where
    run: "feed ?self1 ?g1 rest = Inr (map (\<lambda>b. (False, False)) rest, self', g')"
    using quiet_run [OF q1 q2 q3, of ?g1] by blast
  from step run have whole: "feed init_detector g (b # rest) =
      Inr ((False, reset_fires init_detector b) # map (\<lambda>b. (False, False)) rest, self', g')"
    by (rule feed_Cons)
  have flat: "map (\<lambda>b. False) rest = replicate 56 False"
    using rest by (simp add: map_replicate_const)
  have r: "resets (feed init_detector g bs) = Some (True # replicate 56 False)"
    using whole flat first_call_resets [of b] by (simp add: resets_def bs comp_def)
  have "replicate 57 False = False # replicate 56 False"
    by code_simp
  then have a: "answers (feed init_detector g bs) = Some (replicate 57 False)"
    using whole flat by (simp add: answers_def bs comp_def)
  have "states_after ?self1 ?g1 rest =
      Inr (map (\<lambda>i. (\<lparr>iteration = iteration ?self1 + 1 + int i, num = num ?self1,
                          times_count = times_count ?self1\<rparr>, ?g1)) [0..<length rest])"
    using q1 q2 q3 by (rule quiet_states)
  then have tail: "states_after ?self1 ?g1 rest =
      Inr (map (\<lambda>i. (\<lparr>iteration = ?j + int (Suc i), num = len b, times_count = 0\<rparr>, ?g1))
             [0..<56])"
    by (simp add: rest add.commute add.left_commute)
  have "[0..<57] = [0..<Suc 56]" by simp
  then have "map (\<lambda>i. (\<lparr>iteration = ?j + int i, num = len b, times_count = 0\<rparr>, ?g1)) [0..<57] =
      (?self1, ?g1) #
      map (\<lambda>i. (\<lparr>iteration = ?j + int (Suc i), num = len b, times_count = 0\<rparr>, ?g1)) [0..<56]"
    by (simp only: map_upt_Suc) simp
  then have s: "states_after init_detector g bs =
      Inr (map (\<lambda>i. (\<lparr>iteration = ?j + int i, num = len (hd bs), times_count = 0\<rparr>, ?g1))
             [0..<57])"
    using step tail by (simp add: bs)
  show ?thesis using r a j s by blast
qed

theorem one_reset_in_57_calls_witness:
  "length (map row_board [0..<57]) = 57 \<and>
   sorted_wrt (<) (map len (map row_board [0..<57])) \<and>
   resets (feed init_detector sample_source (map row_board [0..<57]))
     = Some (True # replicate 56 False) \<and>
   states_after init_detector sample_source (map row_board [0..<57]) =
     Inr (map (\<lambda>i. (\<lparr>iteration = int (sample_source 0 mod 3) - 2 + int i,
                         num = len (hd (map row_board [0..<57])), times_count = 0\<rparr>,
                      \<lambda>n. sample_source (Suc n))) [0..<57])"
proof -
  have l: "length (map row_board [0..<57]) = 57" by simp
  have s: "sorted_wrt (<) (map len (map row_board [0..<57]))"
    by (simp add: sorted_wrt_map len_row_board)
  show ?thesis using l s one_reset_in_57_calls [OF l s, of sample_source] by blast
qed

subsection \<open>Firing on a constant population\<close>

text \<open>
  C6, as stated, fails: in the state with \<^verbatim>\<open>iteration = 0\<close>, \<^verbatim>\<open>num = 5\<close>,
  \<^verbatim>\<open>times = 0\<close> (the state after a reset on a board of five cells), 16 calls on
  boards of three cells all answer \<open>False\<close>, and none of them resets.
\<close>

theorem constant_population_counterexample:
  "answers (feed \<lparr>iteration = 0, num = 5, times_count = 0\<rparr> sample_source
      (replicate 16 (row_board 3))) = Some (replicate 16 False) \<and>
   resets (feed \<lparr>iteration = 0, num = 5, times_count = 0\<rparr> sample_source
      (replicate 16 (row_board 3))) = Some (replicate 16 False) \<and>
   len (row_board 3) = 3"
proof -
  let ?self = "\<lparr>iteration = 0, num = 5, times_count = 0\<rparr>"
  have "\<exists>self' g'. feed ?self sample_source (replicate 16 (row_board 3)) =
      Inr (map (\<lambda>b. (False, False)) (replicate 16 (row_board 3)), self', g')"
    by (rule quiet_run) (simp_all add: len_row_board REPETITIONS_def PATTERN_LENGTH_def)
  then show ?thesis
    by (auto simp: answers_def resets_def len_row_board)
qed

text \<open>
  C6, amended: 16 consecutive calls on boards of one population \<open>p\<close> answer \<open>True\<close>
  at least once, for every jitter, from every state in which either the first of
  the calls resets periodically (\<^verbatim>\<open>iteration\<close> at least 56, as in the freshly
  constructed detector), or the recorded population \<^verbatim>\<open>num\<close> already is \<open>p\<close>, the
  streak \<^verbatim>\<open>times\<close> is not negative and no periodic reset falls within the 16 calls.
\<close>

theorem constant_population_fires:
  assumes "length bs = 16" and "\<forall>b \<in> set bs. len b = p"
    and "REPETITIONS * PATTERN_LENGTH \<le> iteration self \<or>
         (num self = p \<and> 0 \<le> times_count self \<and>
          iteration self + 16 \<le> REPETITIONS * PATTERN_LENGTH)"
  shows "\<exists>as. answers (feed self g bs) = Some as \<and> True \<in> set as"
proof -
  have goal: "\<exists>as. answers (feed self g bs) = Some as \<and> True \<in> set as"
    if "feed self g bs = Inr (log, self', g')" "True \<in> fst ` set log" for log self' g'
    using that by (simp add: answers_def)
  from assms(1) obtain b rest where bs: "bs = b # rest" and rest: "length rest = 15"
    by (cases bs) simp_all
  have fired: ?thesis if "REPETITIONS < streak self b"
  proof -
    from that have "reset_fires self b" by (simp add: reset_fires_def)
    then obtain j g1 where step: "is_bored_of self b g =
        Inr (REPETITIONS < streak self b, \<lparr>iteration = j, num = len b, times_count = 0\<rparr>, g1)"
      using call_with_reset by blast
    obtain log self' g' where
      "feed \<lparr>iteration = j, num = len b, times_count = 0\<rparr> g1 rest = Inr (log, self', g')"
      using feed_returns by blast
    with step have "feed self g (b # rest) =
        Inr ((REPETITIONS < streak self b, reset_fires self b) # log, self', g')"
      by (rule feed_Cons)
    then show ?thesis using that goal [of _ self' g'] by (simp add: bs)
  qed
  show ?thesis
  proof (cases "REPETITIONS < streak self b")
    case True
    then show ?thesis by (rule fired)
  next
    case quiet: False
    from assms(3) show ?thesis
    proof
      assume "REPETITIONS * PATTERN_LENGTH \<le> iteration self"
      then have "reset_fires self b" by (simp add: reset_fires_def)
      then obtain j g1 where j: "- 2 \<le> j" "j \<le> 0" and step: "is_bored_of self b g =
          Inr (REPETITIONS < streak self b, \<lparr>iteration = j, num = len b, times_count = 0\<rparr>, g1)"
        using call_with_reset by blast
      let ?self1 = "\<lparr>iteration = j, num = len b, times_count = 0\<rparr>"
      have "\<exists>log self' g'. feed ?self1 g1 rest = Inr (log, self', g') \<and> True \<in> fst ` set log"
      proof (rule streak_run)
        show "\<forall>c \<in> set rest. len c = num ?self1" using assms(2) by (simp add: bs)
        show "times_count ?self1 \<le> REPETITIONS" by (simp add: REPETITIONS_def)
        show "REPETITIONS < times_count ?self1 + int (length rest)"
          using rest by (simp add: REPETITIONS_def)
        show "iteration ?self1 + int (length rest) \<le> REPETITIONS * PATTERN_LENGTH"
          using j rest by (simp add: REPETITIONS_def PATTERN_LENGTH_def)
      qed
      then obtain log self' g' where run: "feed ?self1 g1 rest = Inr (log, self', g')"
        and t: "True \<in> fst ` set log" by blast
      from step run have "feed self g (b # rest) =
          Inr ((REPETITIONS < streak self b, reset_fires self b) # log, self', g')"
        by (rule feed_Cons)
      then show ?thesis using t goal [of _ self' g'] by (simp add: bs)
    next
      assume b: "num self = p \<and> 0 \<le> times_count self \<and>
          iteration self + 16 \<le> REPETITIONS * PATTERN_LENGTH"
      have "streak self b = times_count self + 1"
        using assms(2) b by (simp add: streak_def bs)
      with quiet have low: "times_count self \<le> REPETITIONS" by simp
      have "\<exists>log self' g'. feed self g bs = Inr (log, self', g') \<and> True \<in> fst ` set log"
      proof (rule streak_run)
        show "\<forall>c \<in> set bs. len c = num self" using assms(2) b by simp
        show "times_count self \<le> REPETITIONS" by (rule low)
        show "REPETITIONS < times_count self + int (length bs)"
          using assms(1) b by (simp add: REPETITIONS_def)
        show "iteration self + int (length bs) \<le> REPETITIONS * PATTERN_LENGTH"
          using assms(1) b by simp
      qed
      then show ?thesis using goal by blast
    qed
  qed
qed

theorem constant_population_fires_witness:
  "length (replicate 16 (row_board 3)) = 16 \<and>
   REPETITIONS * PATTERN_LENGTH \<le> iteration init_detector \<and>
   (\<exists>as. answers (feed init_detector sample_source (replicate 16 (row_board 3))) = Some as
      \<and> True \<in> set as) \<and>
   (\<exists>as. answers (feed \<lparr>iteration = 0, num = 3, times_count = 0\<rparr> sample_source
              (replicate 16 (row_board 3))) = Some as \<and> True \<in> set as)"
proof -
  have "REPETITIONS * PATTERN_LENGTH \<le> iteration init_detector"
    by (simp add: init_detector_def)
  then have "\<exists>as. answers (feed init_detector sample_source (replicate 16 (row_board 3))) = Some as
      \<and> True \<in> set as"
    using constant_population_fires
      [of "replicate 16 (row_board 3)" 3 init_detector sample_source]
    by (simp add: len_row_board)
  moreover have "\<exists>as. answers (feed \<lparr>iteration = 0, num = 3, times_count = 0\<rparr> sample_source
      (replicate 16 (row_board 3))) = Some as \<and> True \<in> set as"
    using constant_population_fires
      [of "replicate 16 (row_board 3)" 3 "\<lparr>iteration = 0, num = 3, times_count = 0\<rparr>"
        sample_source]
    by (simp add: len_row_board REPETITIONS_def PATTERN_LENGTH_def)
  ultimately show ?thesis by (simp add: init_detector_def)
qed

subsection \<open>What an answer \<open>True\<close> has seen\<close>

text \<open>
  From any state: when call \<open>k\<close> answers \<open>True\<close>, either an earlier call reset last at
  \<open>r\<close> and the boards of the calls \<open>r + 1, \<dots>, k\<close> matched the population recorded there
  often enough, or no call before \<open>k\<close> reset and the matches since the start top up
  the streak the run began with.
\<close>

lemma true_answer_counts:
  assumes "feed self g bs = Inr (log, self', g')" and "k < length bs" and "fst (log ! k)"
  shows "(\<exists>r<k. snd (log ! r) \<and> (\<forall>j. r < j \<and> j < k \<longrightarrow> \<not> snd (log ! j)) \<and>
            REPETITIONS + 1 \<le>
              int (length (filter (\<lambda>b. len b = len (bs ! r)) (drop (Suc r) (take (Suc k) bs))))) \<or>
         ((\<forall>j<k. \<not> snd (log ! j)) \<and>
            REPETITIONS + 1 \<le>
              times_count self + int (length (filter (\<lambda>b. len b = num self) (take (Suc k) bs))))"
  using assms
proof (induction bs arbitrary: self g log k)
  case Nil
  then show ?case by simp
next
  case (Cons b bs)
  from Cons.prems(1) obtain r0 self1 g1 log1 where
    step: "is_bored_of self b g = Inr (r0, self1, g1)" and
    run: "feed self1 g1 bs = Inr (log1, self', g')" and
    log: "log = (r0, reset_fires self b) # log1"
    by (rule feed_ConsE)
  have r0: "r0 = (REPETITIONS < streak self b)"
    using step by (rule answer_is_streak)
  show ?case
  proof (cases k)
    case 0
    with Cons.prems(3) log r0 have "REPETITIONS < streak self b" by simp
    then have "REPETITIONS + 1 \<le>
        times_count self + int (length (filter (\<lambda>c. len c = num self) [b]))"
      by (simp add: streak_def split: if_splits)
    then show ?thesis using 0 by simp
  next
    case (Suc k')
    with Cons.prems(2,3) log have k': "k' < length bs" and t: "fst (log1 ! k')"
      by simp_all
    from Cons.IH [OF run k' t] show ?thesis
    proof
      assume "\<exists>r<k'. snd (log1 ! r) \<and> (\<forall>j. r < j \<and> j < k' \<longrightarrow> \<not> snd (log1 ! j)) \<and>
          REPETITIONS + 1 \<le>
            int (length (filter (\<lambda>c. len c = len (bs ! r)) (drop (Suc r) (take (Suc k') bs))))"
      then obtain r where r: "r < k'" "snd (log1 ! r)"
        and quiet: "\<forall>j. r < j \<and> j < k' \<longrightarrow> \<not> snd (log1 ! j)"
        and cnt: "REPETITIONS + 1 \<le>
            int (length (filter (\<lambda>c. len c = len (bs ! r)) (drop (Suc r) (take (Suc k') bs))))"
        by blast
      have "\<forall>j. Suc r < j \<and> j < k \<longrightarrow> \<not> snd (log ! j)"
      proof (intro allI impI)
        fix j
        assume j: "Suc r < j \<and> j < k"
        then obtain j' where "j = Suc j'" by (cases j) simp_all
        with j quiet Suc show "\<not> snd (log ! j)" by (simp add: log)
      qed
      moreover have "Suc r < k" "snd (log ! Suc r)"
        using r Suc by (simp_all add: log)
      moreover have "REPETITIONS + 1 \<le>
          int (length (filter (\<lambda>c. len c = len ((b # bs) ! Suc r))
                 (drop (Suc (Suc r)) (take (Suc k) (b # bs)))))"
        using cnt Suc by simp
      ultimately show ?thesis by blast
    next
      assume a: "(\<forall>j<k'. \<not> snd (log1 ! j)) \<and>
          REPETITIONS + 1 \<le>
            times_count self1 + int (length (filter (\<lambda>c. len c = num self1) (take (Suc k') bs)))"
      show ?thesis
      proof (cases "reset_fires self b")
        case True
        then have s1: "num self1 = len b" "times_count self1 = 0"
          using call_with_reset [OF True, of g] step by auto
        have "\<forall>j. 0 < j \<and> j < k \<longrightarrow> \<not> snd (log ! j)"
        proof (intro allI impI)
          fix j
          assume j: "0 < j \<and> j < k"
          then obtain j' where "j = Suc j'" by (cases j) simp_all
          with j a Suc show "\<not> snd (log ! j)" by (simp add: log)
        qed
        moreover have "0 < k" "snd (log ! 0)"
          using Suc True by (simp_all add: log)
        moreover have "REPETITIONS + 1 \<le>
            int (length (filter (\<lambda>c. len c = len ((b # bs) ! 0))
                   (drop (Suc 0) (take (Suc k) (b # bs)))))"
          using a s1 Suc by simp
        ultimately show ?thesis by blast
      next
        case False
        then have s1: "num self1 = num self" "times_count self1 = streak self b"
          using call_without_reset [OF False, of g] step by auto
        have "\<forall>j<k. \<not> snd (log ! j)"
        proof (intro allI impI)
          fix j
          assume j: "j < k"
          show "\<not> snd (log ! j)"
          proof (cases j)
            case 0
            then show ?thesis using False by (simp add: log)
          next
            case (Suc j')
            with j a \<open>k = Suc k'\<close> show ?thesis by (simp add: log)
          qed
        qed
        moreover have "REPETITIONS + 1 \<le>
            times_count self + int (length (filter (\<lambda>c. len c = num self) (take (Suc k) (b # bs))))"
          using a s1 Suc by (simp add: streak_def split: if_splits)
        ultimately show ?thesis by blast
      qed
    qed
  qed
qed

lemma sixteen_empty_boards:
  "answers (feed init_detector sample_source (replicate 16 [])) = Some (replicate 15 False @ [True])"
  "resets (feed init_detector sample_source (replicate 16 [])) = Some (True # replicate 14 False @ [True])"
  by code_simp+

text \<open>
  C4: in any run from the initial state, when call \<open>k\<close> answers \<open>True\<close> there is a most
  recent earlier reset, at call \<open>r\<close>, and at least \<^verbatim>\<open>REPETITIONS + 1\<close> = 15 of the calls
  \<open>r + 1, \<dots>, k\<close> saw a board whose population is the one call \<open>r\<close> recorded. A call
  that resets records the population of its board and zeroes the streak; a call that
  does not reset never lowers the streak.
\<close>

theorem true_answer_after_15_matches:
  "(answers (feed init_detector g bs) = Some as \<and> resets (feed init_detector g bs) = Some rs \<and>
      k < length bs \<and> as ! k \<longrightarrow>
      (\<exists>r<k. rs ! r \<and> (\<forall>j. r < j \<and> j < k \<longrightarrow> \<not> rs ! j) \<and>
         REPETITIONS + 1 = 15 \<and>
         15 \<le> int (length (filter (\<lambda>b. len b = len (bs ! r)) (drop (Suc r) (take (Suc k) bs)))))) \<and>
   (is_bored_of self b g0 = Inr (res, self', g1) \<and> reset_fires self b \<longrightarrow>
      num self' = len b \<and> times_count self' = 0) \<and>
   (is_bored_of self b g0 = Inr (res, self', g1) \<and> \<not> reset_fires self b \<longrightarrow>
      times_count self \<le> times_count self')"
proof (intro conjI impI)
  assume a: "answers (feed init_detector g bs) = Some as \<and>
      resets (feed init_detector g bs) = Some rs \<and> k < length bs \<and> as ! k"
  obtain log d' g' where run: "feed init_detector g bs = Inr (log, d', g')"
    and ll: "length log = length bs"
    using feed_returns by blast
  from a run have as: "as = map fst log" and rs: "rs = map snd log"
    by (simp_all add: answers_def resets_def)
  from a have k: "k < length bs" by simp
  with a as ll have t: "fst (log ! k)" by simp
  have nth: "rs ! j = snd (log ! j)" if "j < length bs" for j
    using that ll by (simp add: rs)
  from k obtain b0 rest where bs: "bs = b0 # rest" by (cases bs) simp_all
  from run obtain e log1 where "log = (e, reset_fires init_detector b0) # log1"
    unfolding bs by (rule feed_ConsE)
  then have first: "snd (log ! 0)"
    using first_call_resets [of b0] by simp
  from true_answer_counts [OF run k t]
  show "\<exists>r<k. rs ! r \<and> (\<forall>j. r < j \<and> j < k \<longrightarrow> \<not> rs ! j) \<and> REPETITIONS + 1 = 15 \<and>
      15 \<le> int (length (filter (\<lambda>b. len b = len (bs ! r)) (drop (Suc r) (take (Suc k) bs))))"
  proof
    assume "\<exists>r<k. snd (log ! r) \<and> (\<forall>j. r < j \<and> j < k \<longrightarrow> \<not> snd (log ! j)) \<and>
        REPETITIONS + 1 \<le>
          int (length (filter (\<lambda>b. len b = len (bs ! r)) (drop (Suc r) (take (Suc k) bs))))"
    then obtain r where "r < k" "snd (log ! r)" "\<forall>j. r < j \<and> j < k \<longrightarrow> \<not> snd (log ! j)"
      "REPETITIONS + 1 \<le>
          int (length (filter (\<lambda>b. len b = len (bs ! r)) (drop (Suc r) (take (Suc k) bs))))"
      by blast
    then have "r < k \<and> rs ! r \<and> (\<forall>j. r < j \<and> j < k \<longrightarrow> \<not> rs ! j) \<and> REPETITIONS + 1 = 15 \<and>
        15 \<le> int (length (filter (\<lambda>b. len b = len (bs ! r)) (drop (Suc r) (take (Suc k) bs))))"
      using k nth by (simp add: REPETITIONS_def)
    then show ?thesis by blast
  next
    assume b: "(\<forall>j<k. \<not> snd (log ! j)) \<and>
        REPETITIONS + 1 \<le> times_count init_detector +
          int (length (filter (\<lambda>b. len b = num init_detector) (take (Suc k) bs)))"
    with first have "k = 0" by (cases k) auto
    with b have "REPETITIONS + 1 \<le> int (length (filter (\<lambda>b. len b = 0) [b0]))"
      by (simp add: bs init_detector_def)
    then have False by (simp add: REPETITIONS_def split: if_splits)
    then show ?thesis ..
  qed
next
  assume "is_bored_of self b g0 = Inr (res, self', g1) \<and> reset_fires self b"
  then show "num self' = len b" "times_count self' = 0"
    using call_with_reset [of self b g0] by auto
next
  assume "is_bored_of self b g0 = Inr (res, self', g1) \<and> \<not> reset_fires self b"
  then show "times_count self \<le> times_count self'"
    using call_without_reset [of self b g0] by (auto simp: streak_def)
qed

theorem true_answer_after_15_matches_witness:
  "answers (feed init_detector sample_source (replicate 16 [])) = Some (replicate 15 False @ [True]) \<and>
   (replicate 15 False @ [True]) ! 15 \<and>
   (\<exists>r<15. 15 \<le> int (length (filter (\<lambda>b. len b = len (replicate 16 [] ! r))
                              (drop (Suc r) (take (Suc 15) (replicate 16 [])))))) \<and>
   is_bored_of \<lparr>iteration = 0, num = 0, times_count = 3\<rparr> [] sample_source
     = Inr (False, \<lparr>iteration = 1, num = 0, times_count = 4\<rparr>, sample_source) \<and>
   \<not> reset_fires \<lparr>iteration = 0, num = 0, times_count = 3\<rparr> [] \<and>
   reset_fires \<lparr>iteration = 56, num = 7, times_count = 3\<rparr> [] \<and>
   is_bored_of \<lparr>iteration = 56, num = 7, times_count = 3\<rparr> [] sample_source
     = Inr (False, \<lparr>iteration = - 2, num = 0, times_count = 0\<rparr>, \<lambda>i. sample_source (Suc i))"
proof -
  let ?self = "\<lparr>iteration = 0, num = 0, times_count = 3\<rparr>"
  let ?self' = "\<lparr>iteration = 1, num = 0, times_count = 4\<rparr>"
  let ?old = "\<lparr>iteration = 56, num = 7, times_count = 3\<rparr>"
  let ?new = "\<lparr>iteration = - 2, num = 0, times_count = 0\<rparr>"
  note t = true_answer_after_15_matches [of sample_source "replicate 16 []"
      "replicate 15 False @ [True]" "True # replicate 14 False @ [True]" 15
      ?self "[]" sample_source False ?self' sample_source]
  note u = true_answer_after_15_matches [of sample_source "replicate 16 []"
      "replicate 15 False @ [True]" "True # replicate 14 False @ [True]" 15
      ?old "[]" sample_source False ?new "\<lambda>i. sample_source (Suc i)"]
  have k: "15 < length (replicate 16 ([] :: board))" by simp
  have a: "(replicate 15 False @ [True]) ! 15" by (simp add: nth_append)
  have quiet: "\<not> reset_fires ?self []"
    by (simp add: reset_fires_def streak_def len_def keys_def REPETITIONS_def PATTERN_LENGTH_def)
  have step: "is_bored_of ?self [] sample_source = Inr (False, ?self', sample_source)"
    using call_without_reset [OF quiet, of sample_source]
    by (simp add: streak_def len_def keys_def)
  have loud: "reset_fires ?old []"
    by (simp add: reset_fires_def REPETITIONS_def PATTERN_LENGTH_def)
  have reset: "is_bored_of ?old [] sample_source =
      Inr (False, ?new, \<lambda>i. sample_source (Suc i))"
    by (simp add: is_bored_of_def randint_def sample_source_def len_def keys_def
        REPETITIONS_def PATTERN_LENGTH_def)
  from u loud reset have "num ?new = len [] \<and> times_count ?new = 0" by blast
  from t sixteen_empty_boards k a
  have "\<exists>r<15. (True # replicate 14 False @ [True]) ! r \<and>
      (\<forall>j. r < j \<and> j < 15 \<longrightarrow> \<not> (True # replicate 14 False @ [True]) ! j) \<and>
      REPETITIONS + 1 = 15 \<and>
      15 \<le> int (length (filter (\<lambda>b. len b = len (replicate 16 [] ! r))
                     (drop (Suc r) (take (Suc 15) (replicate 16 [])))))"
    by blast
  then have "\<exists>r<15. 15 \<le> int (length (filter (\<lambda>b. len b = len (replicate 16 [] ! r))
                     (drop (Suc r) (take (Suc 15) (replicate 16 [])))))"
    by blast
  then show ?thesis using sixteen_empty_boards(1) a step quiet loud reset by blast
qed

section \<open>The glider\<close>

subsection \<open>Away from the border \<^verbatim>\<open>die\<close> clips nothing\<close>

lemma neighbors_near:
  assumes "(px, py) \<in> set (neighbors (x, y))"
  shows "x - 1 \<le> px \<and> px \<le> x + 1 \<and> y - 1 \<le> py \<and> py \<le> y + 1"
proof -
  from assms have "(px, py) = (x + 1, y) \<or> (px, py) = (x - 1, y) \<or> (px, py) = (x, y + 1) \<or>
      (px, py) = (x, y - 1) \<or> (px, py) = (x + 1, y + 1) \<or> (px, py) = (x + 1, y - 1) \<or>
      (px, py) = (x - 1, y + 1) \<or> (px, py) = (x - 1, y - 1)"
    by simp
  then show ?thesis by (elim disjE) simp_all
qed

lemma next_board_unclipped:
  assumes "\<forall>(x, y) \<in> set (keys b). 1 \<le> x \<and> x + 1 < w \<and> 1 \<le> y \<and> y + 1 < h"
  shows "next_board b (die w h) = next_board b Some"
proof -
  have live: "die w h n = Some n" if "n \<in> set (keys b)" for n
    using assms that by (cases n) auto
  have "in_board (die w h n) b = in_board (Some n) b" for n
  proof (cases "n \<in> set (keys b)")
    case True
    then show ?thesis by (simp add: live)
  next
    case False
    then show ?thesis using in_board_die [of w h n b] by auto
  qed
  then have cnt: "live_count b (die w h) p = live_count b Some p" for p
    by (simp add: live_count_filter)
  have cand: "die w h p = Some p" if "p \<in> set (points_to_recalc b)" for p
  proof (cases "p \<in> set (keys b)")
    case True
    then show ?thesis by (rule live)
  next
    case False
    with that obtain q where q: "q \<in> set (keys b)" "p \<in> set (neighbors q)"
      by (auto simp: points_to_recalc_def)
    obtain x y px py where xy: "q = (x, y)" "p = (px, py)" by (cases q, cases p) auto
    have "1 \<le> x \<and> x + 1 < w \<and> 1 \<le> y \<and> y + 1 < h"
      using assms q(1) xy by auto
    moreover have "x - 1 \<le> px \<and> px \<le> x + 1 \<and> y - 1 \<le> py \<and> py \<le> y + 1"
      using q(2) unfolding xy by (rule neighbors_near)
    ultimately show ?thesis by (simp add: xy)
  qed
  have "recalc b (die w h) p = recalc b Some p" if "p \<in> set (points_to_recalc b)" for p
    using cand [OF that] by (simp add: recalc_def cnt fun_eq_iff split: option.splits)
  then show ?thesis
    unfolding next_board_def by (intro fold_cong) simp_all
qed

subsection \<open>Without clipping, \<^verbatim>\<open>next_board\<close> commutes with translation\<close>

lemma inj_shift: "inj (shift dx dy)"
  by (auto simp: inj_on_def)

lemma shift_eq_iff: "shift dx dy p = shift dx dy q \<longleftrightarrow> p = q"
  using inj_shift [of dx dy] by (auto dest: injD)

lemma remdups_map_shift: "remdups (map (shift dx dy) ps) = map (shift dx dy) (remdups ps)"
  by (induction ps) (auto simp: shift_eq_iff)

lemma keys_translate: "keys (translate dx dy b) = map (shift dx dy) (keys b)"
proof -
  have "map fst (translate dx dy b) = map (shift dx dy) (map fst b)"
    by (simp add: translate_def comp_def case_prod_unfold)
  then show ?thesis by (simp only: keys_def remdups_map_shift)
qed

lemma neighbors_shift: "neighbors (shift dx dy p) = map (shift dx dy) (neighbors p)"
  by (cases p) simp

lemma points_translate:
  "points_to_recalc (translate dx dy b) = map (shift dx dy) (points_to_recalc b)"
proof -
  have "concat (map neighbors (map (shift dx dy) ps)) =
      map (shift dx dy) (concat (map neighbors ps))" for ps
    by (induction ps) (simp_all add: neighbors_shift)
  then show ?thesis
    by (simp add: points_to_recalc_def keys_translate remdups_map_shift [symmetric])
qed

lemma in_board_translate:
  "in_board (Some (shift dx dy p)) (translate dx dy b) = in_board (Some p) b"
  by (simp add: keys_translate inj_image_mem_iff [OF inj_shift] del: shift.simps)

lemma live_count_translate:
  "live_count (translate dx dy b) Some (shift dx dy p) = live_count b Some p"
  by (simp add: live_count_filter neighbors_shift filter_map comp_def in_board_translate
      del: in_board.simps)

lemma update_translate:
  "AList.update (shift dx dy k) v (translate dx dy acc) = translate dx dy (AList.update k v acc)"
  by (induction acc) (auto simp: translate_def shift_eq_iff simp del: shift.simps)

lemma recalc_translate:
  "recalc (translate dx dy b) Some (shift dx dy p) (translate dx dy acc) =
     translate dx dy (recalc b Some p acc)"
  by (simp add: recalc_def live_count_translate in_board_translate update_translate
      del: in_board.simps split: option.splits)

lemma fold_recalc_translate:
  "fold (recalc (translate dx dy b) Some) (map (shift dx dy) ps) (translate dx dy acc) =
     translate dx dy (fold (recalc b Some) ps acc)"
  by (induction ps arbitrary: acc) (simp_all add: recalc_translate)

lemma next_board_translate:
  "next_board (translate dx dy b) Some = translate dx dy (next_board b Some)"
proof -
  have "translate dx dy [] = []" by (simp add: translate_def)
  then show ?thesis
    using fold_recalc_translate [of dx dy b "points_to_recalc b" "[]"]
    by (simp add: next_board_def points_translate)
qed

text \<open>
  A pattern that stays a cell away from the border for \<open>n\<close> generations evolves on the
  clipped grid as it does on the unbounded one.
\<close>

lemma generations_unclipped:
  assumes "\<forall>k<n. \<forall>(x, y) \<in> set (keys (generations k Some b)).
      1 \<le> x + dx \<and> x + dx + 1 < w \<and> 1 \<le> y + dy \<and> y + dy + 1 < h"
  shows "generations n (die w h) (translate dx dy b) = translate dx dy (generations n Some b)"
  using assms
proof (induction n arbitrary: b)
  case 0
  then show ?case by simp
next
  case (Suc n)
  from Suc.prems have "\<forall>(x, y) \<in> set (keys (generations 0 Some b)).
      1 \<le> x + dx \<and> x + dx + 1 < w \<and> 1 \<le> y + dy \<and> y + dy + 1 < h"
    by blast
  then have "\<forall>(x, y) \<in> set (keys (translate dx dy b)). 1 \<le> x \<and> x + 1 < w \<and> 1 \<le> y \<and> y + 1 < h"
    by (auto simp: keys_translate)
  then have first: "next_board (translate dx dy b) (die w h) = translate dx dy (next_board b Some)"
    by (simp add: next_board_unclipped next_board_translate)
  have "\<forall>k<n. \<forall>(x, y) \<in> set (keys (generations k Some (next_board b Some))).
      1 \<le> x + dx \<and> x + dx + 1 < w \<and> 1 \<le> y + dy \<and> y + dy + 1 < h"
  proof (intro allI impI)
    fix k
    assume "k < n"
    then have "Suc k < Suc n" by simp
    with Suc.prems show "\<forall>(x, y) \<in> set (keys (generations k Some (next_board b Some))).
        1 \<le> x + dx \<and> x + dx + 1 < w \<and> 1 \<le> y + dy \<and> y + dy + 1 < h"
      by fastforce
  qed
  then have "generations n (die w h) (translate dx dy (next_board b Some)) =
      translate dx dy (generations n Some (next_board b Some))"
    by (rule Suc.IH)
  then show ?case by (simp add: first)
qed

subsection \<open>Four generations of the glider\<close>

lemma glider_box_0:
  "\<forall>(x, y) \<in> set (keys (generations 0 Some glider)). 0 \<le> x \<and> x \<le> 3 \<and> 0 \<le> y \<and> y \<le> 3"
  by code_simp

lemma glider_box_1:
  "\<forall>(x, y) \<in> set (keys (generations 1 Some glider)). 0 \<le> x \<and> x \<le> 3 \<and> 0 \<le> y \<and> y \<le> 3"
  by code_simp

lemma glider_box_2:
  "\<forall>(x, y) \<in> set (keys (generations 2 Some glider)). 0 \<le> x \<and> x \<le> 3 \<and> 0 \<le> y \<and> y \<le> 3"
  by code_simp

lemma glider_box_3:
  "\<forall>(x, y) \<in> set (keys (generations 3 Some glider)). 0 \<le> x \<and> x \<le> 3 \<and> 0 \<le> y \<and> y \<le> 3"
  by code_simp

lemma glider_box:
  assumes "k < 4"
  shows "\<forall>(x, y) \<in> set (keys (generations k Some glider)). 0 \<le> x \<and> x \<le> 3 \<and> 0 \<le> y \<and> y \<le> 3"
proof -
  from assms have "k = 0 \<or> k = 1 \<or> k = 2 \<or> k = 3" by arith
  then show ?thesis
    using glider_box_0 glider_box_1 glider_box_2 glider_box_3 by (elim disjE) simp_all
qed

lemma glider_after_4:
  "keys (generations 4 Some glider) = [(3, 3), (1, 3), (3, 2), (2, 3), (2, 1)]"
  by code_simp

lemma glider_keys: "keys glider = [(1, 0), (2, 1), (0, 2), (1, 2), (2, 2)]"
  by code_simp

lemma shift_shift: "shift a b (shift c d p) = shift c d (shift a b p)"
  by (cases p) simp

text \<open>
  C7: the glider \<open>(1,0), (2,1), (0,2), (1,2), (2,2)\<close> has five cells, and placed at any
  offset \<open>(dx, dy)\<close> that keeps its 4 by 4 box a cell away from every border of the
  \<open>w\<close> by \<open>h\<close> grid, four applications of \<^verbatim>\<open>next_board\<close> with the \<^verbatim>\<open>die\<close> policy give
  a board whose key set is the glider's key set moved by \<open>(1, 1)\<close>.
\<close>

theorem glider_moves_diagonally:
  assumes "1 \<le> dx" and "dx + 5 \<le> w" and "1 \<le> dy" and "dy + 5 \<le> h"
  shows "length (keys glider) = 5 \<and>
         set (keys (generations 4 (die w h) (translate dx dy glider)))
           = shift 1 1 ` set (keys (translate dx dy glider))"
proof -
  have "\<forall>k<4. \<forall>(x, y) \<in> set (keys (generations k Some glider)).
      1 \<le> x + dx \<and> x + dx + 1 < w \<and> 1 \<le> y + dy \<and> y + dy + 1 < h"
  proof (intro allI impI)
    fix k :: nat
    assume "k < 4"
    then have "\<forall>(x, y) \<in> set (keys (generations k Some glider)).
        0 \<le> x \<and> x \<le> 3 \<and> 0 \<le> y \<and> y \<le> 3"
      by (rule glider_box)
    then show "\<forall>(x, y) \<in> set (keys (generations k Some glider)).
        1 \<le> x + dx \<and> x + dx + 1 < w \<and> 1 \<le> y + dy \<and> y + dy + 1 < h"
      using assms by fastforce
  qed
  then have "generations 4 (die w h) (translate dx dy glider) =
      translate dx dy (generations 4 Some glider)"
    by (rule generations_unclipped)
  then have "set (keys (generations 4 (die w h) (translate dx dy glider))) =
      shift dx dy ` set (keys (generations 4 Some glider))"
    by (simp add: keys_translate)
  also have "set (keys (generations 4 Some glider)) = shift 1 1 ` set (keys glider)"
    by (simp add: glider_after_4 glider_keys) blast
  also have "shift dx dy ` shift 1 1 ` set (keys glider) =
      shift 1 1 ` set (keys (translate dx dy glider))"
    by (simp add: keys_translate image_image shift_shift del: shift.simps)
  finally show ?thesis by (simp add: glider_keys)
qed

theorem glider_moves_diagonally_witness:
  "set (keys (generations 4 (die 10 10) (translate 3 3 glider)))
     = shift 1 1 ` set (keys (translate 3 3 glider))"
  using glider_moves_diagonally [of 3 10 3 10] by simp

end
